theory Spec2Isabelle
  imports Main
begin

section \<open>Strings\<close>

text \<open>
  A \<^verbatim>\<open>std::string\<close> is a \<^typ>\<open>string\<close> (a list of bytes). \<^verbatim>\<open>substr\<close> throws
  \<^verbatim>\<open>std::out_of_range\<close> when the start position lies beyond the size of the string;
  the exception is the \<open>Inl\<close> branch of the result.
\<close>

datatype error = Out_of_range

text \<open>
  Subtraction of \<^verbatim>\<open>size_t\<close> values (64 bits, both operands below \<open>2 ^ 64\<close>): the
  difference wraps around instead of going negative.
\<close>

definition size_sub :: "nat \<Rightarrow> nat \<Rightarrow> nat" where
  "size_sub a b = (if b \<le> a then a - b else 2 ^ 64 + a - b)"

text \<open>\<^verbatim>\<open>s.substr(pos, n)\<close>: at most \<open>n\<close> characters from position \<open>pos\<close>.\<close>

definition substr :: "string \<Rightarrow> nat \<Rightarrow> nat \<Rightarrow> error + string" where
  "substr s pos n = (if length s < pos then Inl Out_of_range else Inr (take n (drop pos s)))"

text \<open>\<^verbatim>\<open>s.substr(pos)\<close>: everything from position \<open>pos\<close> to the end.\<close>

definition substr_from :: "string \<Rightarrow> nat \<Rightarrow> error + string" where
  "substr_from s pos = (if length s < pos then Inl Out_of_range else Inr (drop pos s))"

section \<open>Graph\<close>

text \<open>
  \<^verbatim>\<open>adj_list\<close> is an \<^verbatim>\<open>unordered_map<string, vector<string>>\<close>. It is modelled as an
  association list with one entry per key, in the order in which the keys were first
  inserted. A freshly constructed \<^verbatim>\<open>Graph\<close> has no entry.
\<close>

type_synonym Graph = "(string \<times> string list) list"

definition Graph_init :: Graph where
  "Graph_init = []"

text \<open>
  \<^verbatim>\<open>adj_list[from].push_back(to)\<close>: \<^verbatim>\<open>operator[]\<close> creates the entry of \<open>from\<close> with an
  empty vector when the key is absent; the neighbour goes to the end of the vector.
\<close>

fun add_edge :: "string \<Rightarrow> string \<Rightarrow> Graph \<Rightarrow> Graph" where
  "add_edge src dst [] = [(src, [dst])]"
| "add_edge src dst ((k, ns) # g) =
     (if k = src then (k, ns @ [dst]) # g else (k, ns) # add_edge src dst g)"

text \<open>
  The inner loop of \<^verbatim>\<open>build_graph\<close> (lines 33-35). \<^verbatim>\<open>&&\<close> evaluates
  \<^verbatim>\<open>to.substr(0, 2)\<close> only when \<^verbatim>\<open>from != to\<close>.
\<close>

fun build_graph_inner :: "string \<Rightarrow> string \<Rightarrow> string list \<Rightarrow> Graph \<Rightarrow> error + Graph" where
  "build_graph_inner src key [] g = Inr g"
| "build_graph_inner src key (dst # rest) g =
     (if src \<noteq> dst then
        (case substr dst 0 2 of
           Inl e \<Rightarrow> Inl e
         | Inr p \<Rightarrow> build_graph_inner src key rest (if key = p then add_edge src dst g else g))
      else build_graph_inner src key rest g)"

text \<open>
  The outer loop (lines 30-36) runs over a suffix \<open>todo\<close> of \<open>numbers\<close>; the inner loop
  always runs over all of \<open>numbers\<close>.
\<close>

fun build_graph_outer :: "string list \<Rightarrow> string list \<Rightarrow> Graph \<Rightarrow> error + Graph" where
  "build_graph_outer numbers [] g = Inr g"
| "build_graph_outer numbers (src # todo) g =
     (case substr_from src (size_sub (length src) 2) of
        Inl e \<Rightarrow> Inl e
      | Inr key \<Rightarrow>
          (case build_graph_inner src key numbers g of
             Inl e \<Rightarrow> Inl e
           | Inr g' \<Rightarrow> build_graph_outer numbers todo g'))"

definition build_graph :: "string list \<Rightarrow> Graph \<Rightarrow> error + Graph" where
  "build_graph numbers g = build_graph_outer numbers numbers g"

text \<open>\<^verbatim>\<open>get_neighbors\<close>: the vector stored under the key, the empty vector otherwise.\<close>

fun get_neighbors :: "Graph \<Rightarrow> string \<Rightarrow> string list" where
  "get_neighbors [] vertex = []"
| "get_neighbors ((k, ns) # g) vertex = (if k = vertex then ns else get_neighbors g vertex)"

text \<open>
  \<^verbatim>\<open>get_vertices\<close> collects the keys of \<^verbatim>\<open>adj_list\<close>. The iteration order of an
  \<^verbatim>\<open>unordered_map\<close> is unspecified; the model enumerates the keys in the order of the
  association list. Results that could depend on the order are stated below for every
  enumeration.
\<close>

definition get_vertices :: "Graph \<Rightarrow> string list" where
  "get_vertices g = map fst g"

section \<open>LongestPath\<close>

text \<open>
  The four members of the class. \<^verbatim>\<open>visited\<close> is an \<^verbatim>\<open>unordered_map<string, bool>\<close>
  that is only ever accessed through \<^verbatim>\<open>operator[]\<close> and \<^verbatim>\<open>clear\<close>: a read of an absent
  key inserts and yields \<^verbatim>\<open>false\<close>, so the map behaves as a total function that is
  \<open>False\<close> wherever nothing was stored. \<^verbatim>\<open>max_length\<close> is an \<^verbatim>\<open>int\<close> that only ever
  holds the size of a path, so it is never negative and its conversion to \<^verbatim>\<open>size_t\<close> in
  the comparisons with \<^verbatim>\<open>current_path.size()\<close> keeps its value. A path never repeats a
  code, and there are \<open>10 ^ 6\<close> codes of six digits, so the size of a path stays far below
  \<open>2 ^ 31\<close> and the assignment to the \<^verbatim>\<open>int\<close> keeps it too: \<open>max_length\<close> is an
  \<^typ>\<open>int\<close> without wrap-around.
\<close>

record LongestPath =
  current_path :: "string list"
  longest_paths :: "string list list"
  visited :: "string \<Rightarrow> bool"
  max_length :: int

definition LongestPath_init :: LongestPath where
  "LongestPath_init =
     \<lparr>current_path = [], longest_paths = [], visited = (\<lambda>_. False), max_length = 0\<rparr>"

text \<open>Lines 72-84: mark, push, and record the path if it is a new maximum or a tie.\<close>

definition dfs_enter :: "string \<Rightarrow> LongestPath \<Rightarrow> LongestPath" where
  "dfs_enter current lp =
     (let lp1 = lp\<lparr>visited := (visited lp)(current := True)\<rparr>;
          lp2 = lp1\<lparr>current_path := current_path lp1 @ [current]\<rparr>
      in if int (length (current_path lp2)) > max_length lp2 then
           lp2\<lparr>max_length := int (length (current_path lp2)),
               longest_paths := [current_path lp2]\<rparr>
         else if int (length (current_path lp2)) = max_length lp2 then
           lp2\<lparr>longest_paths := longest_paths lp2 @ [current_path lp2]\<rparr>
         else lp2)"

text \<open>Lines 91-92: unmark and pop.\<close>

definition dfs_leave :: "string \<Rightarrow> LongestPath \<Rightarrow> LongestPath" where
  "dfs_leave current lp =
     (let lp1 = lp\<lparr>visited := (visited lp)(current := False)\<rparr>
      in lp1\<lparr>current_path := butlast (current_path lp1)\<rparr>)"

text \<open>
  \<^verbatim>\<open>dfs\<close> and its loop over the neighbours (lines 87-89). The state that comes out of
  the call for one neighbour is the state in which the next neighbour is tested.
\<close>

function dfs :: "string \<Rightarrow> Graph \<Rightarrow> LongestPath \<Rightarrow> LongestPath"
  and dfs_neighbors :: "string list \<Rightarrow> Graph \<Rightarrow> LongestPath \<Rightarrow> LongestPath" where
  "dfs current graph lp =
     dfs_leave current (dfs_neighbors (get_neighbors graph current) graph (dfs_enter current lp))"
| "dfs_neighbors [] graph lp = lp"
| "dfs_neighbors (neighbor # rest) graph lp =
     (if \<not> visited lp neighbor then dfs_neighbors rest graph (dfs neighbor graph lp)
      else dfs_neighbors rest graph lp)"
  by pat_completeness auto

text \<open>
  The loop of \<^verbatim>\<open>find_longest_paths\<close> over the vertices (lines 113-118): both scratch
  members are cleared before each start vertex.
\<close>

fun visit_vertices :: "string list \<Rightarrow> Graph \<Rightarrow> LongestPath \<Rightarrow> LongestPath" where
  "visit_vertices [] graph lp = lp"
| "visit_vertices (vertex # rest) graph lp =
     visit_vertices rest graph
       (dfs vertex graph (lp\<lparr>visited := (\<lambda>_. False), current_path := []\<rparr>))"

text \<open>
  \<^verbatim>\<open>find_longest_paths\<close>. The progress thread only reads the flag \<^verbatim>\<open>is_searching\<close> and
  writes to the console; it shares nothing with the search, and neither it nor the two
  console messages are part of the model.
\<close>

definition find_longest_paths :: "Graph \<Rightarrow> LongestPath \<Rightarrow> LongestPath" where
  "find_longest_paths graph lp = visit_vertices (get_vertices graph) graph lp"

definition get_all_longest_paths :: "LongestPath \<Rightarrow> string list list" where
  "get_all_longest_paths lp = longest_paths lp"

definition get_max_length :: "LongestPath \<Rightarrow> int" where
  "get_max_length lp = max_length lp"

section \<open>Printing a path\<close>

text \<open>
  \<^verbatim>\<open>cout\<close> is the text written so far; \<^verbatim>\<open>endl\<close> writes a line feed. When \<^verbatim>\<open>substr\<close>
  throws, the result is the exception.
\<close>

type_synonym ostream = string

definition endl :: string where
  "endl = [CHR 0x0A]"

text \<open>The loop of lines 145-146, over \<^verbatim>\<open>path[1]\<close>, \<^verbatim>\<open>path[2]\<close>, ...\<close>

fun print_path_loop :: "string list \<Rightarrow> ostream \<Rightarrow> error + ostream" where
  "print_path_loop [] os = Inr os"
| "print_path_loop (c # rest) os =
     (case substr c 0 2 of
        Inl e \<Rightarrow> Inl e
      | Inr a \<Rightarrow>
          (case substr c 2 2 of
             Inl e \<Rightarrow> Inl e
           | Inr b \<Rightarrow> print_path_loop rest (os @ a @ b)))"

definition print_path :: "string list \<Rightarrow> ostream \<Rightarrow> error + ostream" where
  "print_path path os =
     (if path = [] then Inr os
      else
        (case substr (path ! 0) 0 4 of
           Inl e \<Rightarrow> Inl e
         | Inr h \<Rightarrow>
             (case print_path_loop (tl path) (os @ h) of
                Inl e \<Rightarrow> Inl e
              | Inr os1 \<Rightarrow>
                  (case substr (last path) 4 2 of
                     Inl e \<Rightarrow> Inl e
                   | Inr t \<Rightarrow> Inr (os1 @ t @ endl)))))"

section \<open>Auxiliary notions for the proofs\<close>

text \<open>The two-character ends of a code that \<^verbatim>\<open>build_graph\<close> compares.\<close>

definition suffix2 :: "string \<Rightarrow> string" where
  "suffix2 s = drop (length s - 2) s"

definition prefix2 :: "string \<Rightarrow> string" where
  "prefix2 s = take 2 s"

text \<open>Every vertex that occurs in some adjacency vector.\<close>

definition nbr_universe :: "Graph \<Rightarrow> string set" where
  "nbr_universe g = (\<Union>e\<in>set g. set (snd e))"

text \<open>
  The update rule of lines 76-84 on the pair of \<^verbatim>\<open>longest_paths\<close> and \<^verbatim>\<open>max_length\<close>
  alone.
\<close>

definition record_path :: "string list \<Rightarrow> string list list \<times> int \<Rightarrow> string list list \<times> int" where
  "record_path p r =
     (if int (length p) > snd r then ([p], int (length p))
      else if int (length p) = snd r then (fst r @ [p], snd r)
      else r)"

definition results :: "LongestPath \<Rightarrow> string list list \<times> int" where
  "results lp = (longest_paths lp, max_length lp)"

text \<open>The edge relation of a graph: \<open>v\<close> occurs in the adjacency vector of \<open>u\<close>.\<close>

definition edge :: "Graph \<Rightarrow> string \<Rightarrow> string \<Rightarrow> bool" where
  "edge g u v \<longleftrightarrow> v \<in> set (get_neighbors g u)"

text \<open>
  The paths that \<^verbatim>\<open>dfs\<close> pushes, in the order in which it pushes them, as a function
  of the vertex, the marks and the path buffer at the call.
\<close>

function trace_dfs :: "string \<Rightarrow> Graph \<Rightarrow> (string \<Rightarrow> bool) \<Rightarrow> string list \<Rightarrow> string list list" where
  "trace_dfs c g vis cp =
     (cp @ [c]) #
     concat (map (\<lambda>n. if (vis(c := True)) n then [] else trace_dfs n g (vis(c := True)) (cp @ [c]))
               (get_neighbors g c))"
  by pat_completeness auto


section \<open>Termination of the search\<close>

lemma finite_nbr_universe: "finite (nbr_universe g)"
  by (simp add: nbr_universe_def)

lemma get_neighbors_universe: "set (get_neighbors g v) \<subseteq> nbr_universe g"
  by (induction g v rule: get_neighbors.induct) (auto simp: nbr_universe_def)

lemma dfs_enter_frame:
  "current_path (dfs_enter c lp) = current_path lp @ [c]"
  "visited (dfs_enter c lp) = (visited lp)(c := True)"
  by (simp_all add: dfs_enter_def Let_def)

lemma dfs_leave_frame:
  "current_path (dfs_leave c lp) = butlast (current_path lp)"
  "visited (dfs_leave c lp) = (visited lp)(c := False)"
  "longest_paths (dfs_leave c lp) = longest_paths lp"
  "max_length (dfs_leave c lp) = max_length lp"
  by (simp_all add: dfs_leave_def Let_def)

text \<open>
  What a call leaves behind in the scratch members, wherever the call returns: this is
  what the termination of the loop over the neighbours needs.
\<close>

lemma dfs_frame_partial:
  "dfs_dfs_neighbors_dom (Inl (c, g, lp)) \<Longrightarrow>
     visited (dfs c g lp) = (visited lp)(c := False) \<and> current_path (dfs c g lp) = current_path lp"
  "dfs_dfs_neighbors_dom (Inr (ns, g, lp)) \<Longrightarrow>
     visited (dfs_neighbors ns g lp) = visited lp \<and>
     current_path (dfs_neighbors ns g lp) = current_path lp"
proof (induction c g lp and ns g lp rule: dfs_dfs_neighbors.pinduct)
  case (1 current graph lp)
  then show ?case by (simp add: dfs.psimps dfs_enter_frame dfs_leave_frame)
next
  case (2 graph lp)
  then show ?case by (simp add: dfs_neighbors.psimps)
next
  case (3 neighbor rest graph lp)
  then show ?case by (auto simp add: dfs_neighbors.psimps)
qed

text \<open>
  Each call of \<^verbatim>\<open>dfs\<close> from the loop marks a vertex of an adjacency vector that was
  not marked, and there are finitely many of them.
\<close>

termination dfs
proof (relation "measures
    [\<lambda>x. case x of
        Inl (c, g, lp) \<Rightarrow> card (nbr_universe g - Collect (visited lp) - {c})
      | Inr (ns, g, lp) \<Rightarrow> card ((nbr_universe g \<union> set ns) - Collect (visited lp)),
     \<lambda>x. case x of Inl _ \<Rightarrow> 1 | Inr _ \<Rightarrow> 0,
     \<lambda>x. case x of Inl _ \<Rightarrow> 0 | Inr (ns, g, lp) \<Rightarrow> length ns]", goal_cases)
  case 1
  then show ?case by simp
next
  case (2 current graph lp)
  have "nbr_universe graph \<union> set (get_neighbors graph current)
          - Collect (visited (dfs_enter current lp))
        = nbr_universe graph - Collect (visited lp) - {current}"
    using get_neighbors_universe[of graph current]
    by (auto simp: dfs_enter_frame split: if_splits)
  then show ?case
    by simp
next
  case (3 neighbor rest graph lp)
  have "card (nbr_universe graph - Collect (visited lp) - {neighbor})
        < card ((nbr_universe graph \<union> set (neighbor # rest)) - Collect (visited lp))"
    using 3 by (intro psubset_card_mono) (auto simp: finite_nbr_universe)
  then show ?case by simp
next
  case (4 neighbor rest graph lp)
  have "card ((nbr_universe graph \<union> set rest) - Collect (visited (dfs neighbor graph lp)))
        \<le> card ((nbr_universe graph \<union> set (neighbor # rest)) - Collect (visited lp))"
    using 4 dfs_frame_partial(1)[OF 4(2)]
    by (intro card_mono) (auto simp: finite_nbr_universe split: if_splits)
  then show ?case by auto
next
  case (5 neighbor rest graph lp)
  have "card ((nbr_universe graph \<union> set rest) - Collect (visited lp))
        \<le> card ((nbr_universe graph \<union> set (neighbor # rest)) - Collect (visited lp))"
    by (intro card_mono) (auto simp: finite_nbr_universe)
  then show ?case by auto
qed

termination trace_dfs
proof (relation "measure (\<lambda>(c, g, vis, cp). card (nbr_universe g - Collect vis - {c}))", goal_cases)
  case 1
  then show ?case by simp
next
  case (2 c g vis cp n)
  have "n \<in> nbr_universe g"
    using 2(1) get_neighbors_universe[of g c] by blast
  then have "nbr_universe g - Collect (vis(c := True)) - {n}
             \<subset> nbr_universe g - Collect vis - {c}"
    using 2(2) by (auto split: if_splits)
  then have "card (nbr_universe g - Collect (vis(c := True)) - {n})
             < card (nbr_universe g - Collect vis - {c})"
    by (intro psubset_card_mono) (simp_all add: finite_nbr_universe)
  then show ?case by simp
qed

text \<open>
  Both functions unfold without end under a \<open>\<lambda>\<close> or on a graph that is not given
  explicitly, so their equations are used on request only.
\<close>

declare dfs.simps [simp del]
declare trace_dfs.simps [simp del]

section \<open>What \<^verbatim>\<open>build_graph\<close> builds\<close>

lemma substr_0: "substr s 0 n = Inr (take n s)"
  by (simp add: substr_def)

lemma substr_from_size_sub:
  "substr_from s (size_sub (length s) 2) =
     (if length s < 2 then Inl Out_of_range else Inr (suffix2 s))"
  by (auto simp add: substr_from_def size_sub_def suffix2_def)

lemma get_neighbors_add_edge:
  "get_neighbors (add_edge s d g) v =
     (if v = s then get_neighbors g s @ [d] else get_neighbors g v)"
  by (induction s d g rule: add_edge.induct) auto

lemma keys_add_edge: "fst ` set (add_edge s d g) = insert s (fst ` set g)"
  by (induction s d g rule: add_edge.induct) auto

lemma distinct_keys_add_edge:
  "distinct (map fst g) \<Longrightarrow> distinct (map fst (add_edge s d g))"
proof (induction s d g rule: add_edge.induct)
  case (1 src dst)
  then show ?case by simp
next
  case (2 src dst k ns g)
  then show ?case
    using keys_add_edge[of src dst g] by auto
qed

lemma build_graph_inner_total: "\<exists>g'. build_graph_inner src key ds g = Inr g'"
  by (induction src key ds g rule: build_graph_inner.induct) (simp_all add: substr_0)

lemma build_graph_inner_neighbors:
  "build_graph_inner src key ds g = Inr g' \<Longrightarrow>
   get_neighbors g' v =
     get_neighbors g v @ (if v = src then filter (\<lambda>d. src \<noteq> d \<and> key = prefix2 d) ds else [])"
  by (induction src key ds g rule: build_graph_inner.induct)
     (auto simp: substr_0 get_neighbors_add_edge prefix2_def split: if_splits)

lemma build_graph_inner_keys:
  "build_graph_inner src key ds g = Inr g' \<Longrightarrow> distinct (map fst g) \<Longrightarrow> distinct (map fst g')"
  by (induction src key ds g rule: build_graph_inner.induct)
     (auto simp: substr_0 distinct_keys_add_edge split: if_splits)

lemma build_graph_outer_neighbors:
  "build_graph_outer numbers todo g = Inr g' \<Longrightarrow>
   get_neighbors g' v =
     get_neighbors g v @
     concat (map (\<lambda>s. if s = v then filter (\<lambda>d. s \<noteq> d \<and> suffix2 s = prefix2 d) numbers else [])
               todo)"
proof (induction numbers todo g rule: build_graph_outer.induct)
  case (1 numbers g)
  then show ?case by simp
next
  case (2 numbers src todo g)
  from "2.prems" obtain g1 where len: "\<not> length src < 2"
    and inner: "build_graph_inner src (suffix2 src) numbers g = Inr g1"
    and outer: "build_graph_outer numbers todo g1 = Inr g'"
    by (auto simp: substr_from_size_sub split: if_splits sum.splits)
  have key: "substr_from src (size_sub (length src) 2) = Inr (suffix2 src)"
    using len by (simp add: substr_from_size_sub)
  have "get_neighbors g' v =
     get_neighbors g1 v @
     concat (map (\<lambda>s. if s = v then filter (\<lambda>d. s \<noteq> d \<and> suffix2 s = prefix2 d) numbers else [])
               todo)"
    using "2.IH"[OF key inner outer] .
  then show ?case
    by (simp add: build_graph_inner_neighbors[OF inner])
qed

lemma build_graph_outer_lengths:
  "build_graph_outer numbers todo g = Inr g' \<Longrightarrow> \<forall>s\<in>set todo. 2 \<le> length s"
  by (induction numbers todo g rule: build_graph_outer.induct)
     (auto simp: substr_from_size_sub split: if_splits sum.splits)

lemma build_graph_outer_keys:
  "build_graph_outer numbers todo g = Inr g' \<Longrightarrow> distinct (map fst g) \<Longrightarrow> distinct (map fst g')"
  by (induction numbers todo g rule: build_graph_outer.induct)
     (auto simp: substr_from_size_sub build_graph_inner_keys split: if_splits sum.splits)

lemma build_graph_outer_total:
  "\<forall>s\<in>set todo. 2 \<le> length s \<Longrightarrow> \<exists>g'. build_graph_outer numbers todo g = Inr g'"
proof (induction numbers todo g rule: build_graph_outer.induct)
  case (1 numbers g)
  then show ?case by simp
next
  case (2 numbers src todo g)
  obtain g1 where inner: "build_graph_inner src (suffix2 src) numbers g = Inr g1"
    using build_graph_inner_total by blast
  have key: "substr_from src (size_sub (length src) 2) = Inr (suffix2 src)"
    using "2.prems" by (simp add: substr_from_size_sub)
  show ?case
    using "2.IH"[OF key inner] "2.prems" by (simp add: key inner)
qed

lemma concat_map_single:
  "distinct xs \<Longrightarrow> concat (map (\<lambda>s. if s = v then f s else []) xs) = (if v \<in> set xs then f v else [])"
  by (induction xs) auto

lemma build_graph_neighbors:
  assumes "build_graph numbers Graph_init = Inr g"
  shows "get_neighbors g v =
     concat (map (\<lambda>s. if s = v then filter (\<lambda>d. s \<noteq> d \<and> suffix2 s = prefix2 d) numbers else [])
               numbers)"
  using build_graph_outer_neighbors[of numbers numbers Graph_init g v] assms
  by (simp add: build_graph_def Graph_init_def)

lemma build_graph_edge_iff:
  assumes "build_graph numbers Graph_init = Inr g"
  shows "v \<in> set (get_neighbors g u) \<longleftrightarrow>
         u \<in> set numbers \<and> v \<in> set numbers \<and> u \<noteq> v \<and> suffix2 u = prefix2 v"
  by (auto simp: build_graph_neighbors[OF assms] split: if_splits)

lemma build_graph_neighbors_distinct:
  assumes "build_graph numbers Graph_init = Inr g" and "distinct numbers"
  shows "distinct (get_neighbors g v)"
  by (simp add: build_graph_neighbors[OF assms(1)] concat_map_single[OF assms(2)] assms(2))

lemma build_graph_vertices_distinct:
  assumes "build_graph numbers Graph_init = Inr g"
  shows "distinct (get_vertices g)"
  using build_graph_outer_keys[of numbers numbers Graph_init g] assms
  by (simp add: build_graph_def Graph_init_def get_vertices_def)

lemma build_graph_total:
  "\<forall>s\<in>set numbers. 2 \<le> length s \<Longrightarrow> \<exists>g. build_graph numbers Graph_init = Inr g"
  by (simp add: build_graph_def build_graph_outer_total)

lemma build_graph_lengths:
  "build_graph numbers Graph_init = Inr g \<Longrightarrow> \<forall>s\<in>set numbers. 2 \<le> length s"
  using build_graph_outer_lengths[of numbers numbers Graph_init g] by (simp add: build_graph_def)




section \<open>What the search records\<close>


lemma dfs_frame:
  "visited (dfs c g lp) = (visited lp)(c := False) \<and> current_path (dfs c g lp) = current_path lp"
  "visited (dfs_neighbors ns g lp) = visited lp \<and>
   current_path (dfs_neighbors ns g lp) = current_path lp"
proof (induction c g lp and ns g lp rule: dfs_dfs_neighbors.induct)
  case (1 current graph lp)
  then show ?case by (simp add: dfs.simps dfs_enter_frame dfs_leave_frame)
next
  case (2 graph lp)
  then show ?case by simp
next
  case (3 neighbor rest graph lp)
  then show ?case by auto
qed

lemma results_dfs_enter:
  "results (dfs_enter c lp) = record_path (current_path lp @ [c]) (results lp)"
  by (simp add: results_def dfs_enter_def record_path_def Let_def)

lemma results_dfs_leave: "results (dfs_leave c lp) = results lp"
  by (simp add: results_def dfs_leave_frame)

lemma dfs_trace:
  "results (dfs c g lp) =
     fold record_path (trace_dfs c g (visited lp) (current_path lp)) (results lp)"
  "results (dfs_neighbors ns g lp) =
     fold record_path
       (concat (map (\<lambda>n. if visited lp n then []
                          else trace_dfs n g (visited lp) (current_path lp)) ns))
       (results lp)"
proof (induction c g lp and ns g lp rule: dfs_dfs_neighbors.induct)
  case (1 current graph lp)
  let ?E = "dfs_enter current lp"
  have "results (dfs current graph lp) =
        results (dfs_neighbors (get_neighbors graph current) graph ?E)"
    by (simp add: dfs.simps results_dfs_leave)
  also have "\<dots> = fold record_path
       (concat (map (\<lambda>n. if visited ?E n then []
                          else trace_dfs n graph (visited ?E) (current_path ?E))
                  (get_neighbors graph current)))
       (results ?E)"
    by (rule "1.IH")
  also have "\<dots> = fold record_path
       (trace_dfs current graph (visited lp) (current_path lp)) (results lp)"
    unfolding dfs_enter_frame results_dfs_enter
    by (subst (2) trace_dfs.simps) simp
  finally show ?case .
next
  case (2 graph lp)
  then show ?case by simp
next
  case (3 neighbor rest graph lp)
  show ?case
  proof (cases "visited lp neighbor")
    case True
    then show ?thesis using "3.IH"(3) by simp
  next
    case False
    have "(visited lp)(neighbor := False) = visited lp"
      using False by (intro fun_upd_idem) simp
    then have same: "visited (dfs neighbor graph lp) = visited lp"
      "current_path (dfs neighbor graph lp) = current_path lp"
      using dfs_frame(1)[of neighbor graph lp] by simp_all
    show ?thesis
      using False "3.IH"(1,2) unfolding same by simp
  qed
qed

lemma visit_vertices_trace:
  "results (visit_vertices vs g lp) =
     fold record_path (concat (map (\<lambda>v. trace_dfs v g (\<lambda>_. False) []) vs)) (results lp)"
proof (induction vs arbitrary: lp)
  case Nil
  then show ?case by simp
next
  case (Cons v vs)
  have "results (lp\<lparr>visited := (\<lambda>_. False), current_path := []\<rparr>) = results lp"
    by (simp add: results_def)
  then show ?case
    by (simp add: Cons.IH dfs_trace(1))
qed

lemma trace_dfs_paths:
  "p \<in> set (trace_dfs c g vis cp) \<Longrightarrow>
   \<exists>q. p = cp @ c # q \<and> distinct (c # q) \<and> (\<forall>x\<in>set q. \<not> vis x) \<and> successively (edge g) (c # q)"
proof (induction c g vis cp arbitrary: p rule: trace_dfs.induct)
  case (1 c g vis cp)
  from "1.prems" consider "p = cp @ [c]"
    | n where "n \<in> set (get_neighbors g c)" "\<not> (vis(c := True)) n"
        "p \<in> set (trace_dfs n g (vis(c := True)) (cp @ [c]))"
    by (subst (asm) trace_dfs.simps) (auto split: if_splits)
  then show ?case
  proof cases
    case 1
    then show ?thesis by simp
  next
    case 2
    from "1.IH"[OF 2(1) 2(2) 2(3)] obtain q where q: "p = (cp @ [c]) @ n # q"
      "distinct (n # q)" "\<forall>x\<in>set q. \<not> (vis(c := True)) x" "successively (edge g) (n # q)"
      by blast
    have "n \<noteq> c" "\<not> vis n" using 2(2) by (auto split: if_splits)
    moreover have "c \<notin> set q" "\<forall>x\<in>set q. \<not> vis x" using q(3) by (auto split: if_splits)
    moreover have "edge g c n" using 2(1) by (simp add: edge_def)
    ultimately have "p = cp @ c # (n # q) \<and> distinct (c # n # q) \<and>
        (\<forall>x\<in>set (n # q). \<not> vis x) \<and> successively (edge g) (c # n # q)"
      using q by auto
    then show ?thesis by blast
  qed
qed

lemma distinct_concat_map:
  assumes "distinct ns"
    and "\<And>n. n \<in> set ns \<Longrightarrow> distinct (f n)"
    and "\<And>n m. n \<in> set ns \<Longrightarrow> m \<in> set ns \<Longrightarrow> n \<noteq> m \<Longrightarrow> set (f n) \<inter> set (f m) = {}"
  shows "distinct (concat (map f ns))"
  using assms
proof (induction ns)
  case Nil
  then show ?case by simp
next
  case (Cons a ns)
  have "distinct (concat (map f ns))"
    using Cons by auto
  moreover have "distinct (f a)" using Cons.prems(2) by simp
  moreover have "set (f a) \<inter> set (f m) = {}" if "m \<in> set ns" for m
    using Cons.prems(1) Cons.prems(3)[of a m] that by auto
  ultimately show ?case by auto
qed

lemma trace_dfs_distinct:
  "(\<forall>v. distinct (get_neighbors g v)) \<Longrightarrow> distinct (trace_dfs c g vis cp)"
proof (induction c g vis cp rule: trace_dfs.induct)
  case (1 c g vis cp)
  note adj = "1.prems"
  define f where
    "f = (\<lambda>n. if (vis(c := True)) n then [] else trace_dfs n g (vis(c := True)) (cp @ [c]))"
  have unfold: "trace_dfs c g vis cp = (cp @ [c]) # concat (map f (get_neighbors g c))"
    by (subst trace_dfs.simps) (simp add: f_def)
  have form: "\<exists>q. p = cp @ c # n # q" if "p \<in> set (f n)" for p n
  proof (cases "(vis(c := True)) n")
    case True
    have False
      using that unfolding f_def if_P[OF True] by simp
    then show ?thesis ..
  next
    case False
    then have "p \<in> set (trace_dfs n g (vis(c := True)) (cp @ [c]))"
      using that unfolding f_def if_not_P[OF False] by simp
    from trace_dfs_paths[OF this] show ?thesis by auto
  qed
  have "distinct (concat (map f (get_neighbors g c)))"
  proof (rule distinct_concat_map)
    show "distinct (get_neighbors g c)" using adj by simp
  next
    fix n assume n: "n \<in> set (get_neighbors g c)"
    show "distinct (f n)"
    proof (cases "(vis(c := True)) n")
      case True
      show ?thesis unfolding f_def if_P[OF True] by simp
    next
      case False
      show ?thesis unfolding f_def if_not_P[OF False] by (rule "1.IH"[OF n False adj])
    qed
  next
    fix n m :: string assume "n \<noteq> m"
    then show "set (f n) \<inter> set (f m) = {}"
      using form[of _ n] form[of _ m] by fastforce
  qed
  moreover have "cp @ [c] \<notin> set (concat (map f (get_neighbors g c)))"
  proof
    assume "cp @ [c] \<in> set (concat (map f (get_neighbors g c)))"
    then obtain n where "cp @ [c] \<in> set (f n)"
      by auto
    from form[OF this] show False by simp
  qed
  ultimately show ?case
    unfolding unfold by simp
qed

lemma fold_record_path_lengths:
  "\<forall>p\<in>set (fst r). int (length p) = snd r \<Longrightarrow>
   \<forall>p\<in>set (fst (fold record_path T r)). int (length p) = snd (fold record_path T r)"
  by (induction T arbitrary: r) (auto simp: record_path_def)

lemma fold_record_path_subset:
  "set (fst (fold record_path T r)) \<subseteq> set (fst r) \<union> set T"
proof (induction T arbitrary: r)
  case Nil
  then show ?case by simp
next
  case (Cons p T)
  have "set (fst (record_path p r)) \<subseteq> set (fst r) \<union> {p}"
    by (auto simp: record_path_def)
  then show ?case using Cons.IH[of "record_path p r"] by auto
qed

lemma fold_record_path_distinct:
  "distinct (fst r @ T) \<Longrightarrow> distinct (fst (fold record_path T r))"
proof (induction T arbitrary: r)
  case Nil
  then show ?case by simp
next
  case (Cons p T)
  have "distinct (fst (record_path p r) @ T)"
    using Cons.prems by (auto simp: record_path_def)
  then show ?case using Cons.IH[of "record_path p r"] by simp
qed

lemma successively_nth:
  "successively P xs \<Longrightarrow> Suc i < length xs \<Longrightarrow> P (xs ! i) (xs ! Suc i)"
proof (induction xs arbitrary: i)
  case Nil
  then show ?case by simp
next
  case (Cons x xs)
  then show ?case
    by (cases i; cases xs) (auto simp: successively_Cons)
qed

lemma results_sel:
  "fst (results lp) = longest_paths lp"
  "snd (results lp) = max_length lp"
  by (simp_all add: results_def)

lemma longest_paths_visit_vertices:
  "longest_paths (visit_vertices vs g lp) =
     fst (fold record_path (concat (map (\<lambda>v. trace_dfs v g (\<lambda>_. False) []) vs)) (results lp))"
  unfolding results_sel(1)[symmetric] visit_vertices_trace ..

lemma recorded_paths:
  assumes "p \<in> set (get_all_longest_paths (visit_vertices vs g LongestPath_init))"
  shows "\<exists>c. p \<in> set (trace_dfs c g (\<lambda>_. False) [])"
proof -
  let ?T = "concat (map (\<lambda>v. trace_dfs v g (\<lambda>_. False) []) vs)"
  have "get_all_longest_paths (visit_vertices vs g LongestPath_init)
        = fst (fold record_path ?T (results LongestPath_init))"
    by (simp add: get_all_longest_paths_def longest_paths_visit_vertices)
  then have "p \<in> set (fst (results LongestPath_init)) \<union> set ?T"
    using assms fold_record_path_subset[of ?T "results LongestPath_init"] by auto
  then show ?thesis
    by (auto simp: results_def LongestPath_init_def)
qed

lemma trace_concat_distinct:
  assumes "\<forall>v. distinct (get_neighbors g v)" and "distinct vs"
  shows "distinct (concat (map (\<lambda>v. trace_dfs v g (\<lambda>_. False) []) vs))"
proof (rule distinct_concat_map)
  show "distinct vs" by (rule assms(2))
next
  fix n show "distinct (trace_dfs n g (\<lambda>_. False) [])"
    using assms(1) by (rule trace_dfs_distinct)
next
  fix n m :: string assume "n \<noteq> m"
  then show "set (trace_dfs n g (\<lambda>_. False) []) \<inter> set (trace_dfs m g (\<lambda>_. False) []) = {}"
    using trace_dfs_paths[of _ n g "\<lambda>_. False" "[]"] trace_dfs_paths[of _ m g "\<lambda>_. False" "[]"]
    by fastforce
qed

lemma visit_vertices_distinct:
  assumes "\<forall>v. distinct (get_neighbors g v)" and "distinct vs"
  shows "distinct (longest_paths (visit_vertices vs g LongestPath_init))"
proof -
  let ?T = "concat (map (\<lambda>v. trace_dfs v g (\<lambda>_. False) []) vs)"
  have "longest_paths (visit_vertices vs g LongestPath_init)
        = fst (fold record_path ?T (results LongestPath_init))"
    by (rule longest_paths_visit_vertices)
  moreover have "distinct (fst (results LongestPath_init) @ ?T)"
    using trace_concat_distinct[OF assms] by (simp add: results_def LongestPath_init_def)
  ultimately show ?thesis
    using fold_record_path_distinct by simp
qed

lemma print_path_loop_codes:
  "\<forall>c\<in>set cs. length c = 6 \<Longrightarrow>
   print_path_loop cs os = Inr (os @ concat (map (take 4) cs))"
proof (induction cs arbitrary: os)
  case Nil
  then show ?case by simp
next
  case (Cons c cs)
  have "take 2 c @ take 2 (drop 2 c) = take 4 c"
    by (metis add_2_eq_Suc' numeral_Bit0 take_add)
  then show ?case
    using Cons by (simp add: substr_def)
qed


















text \<open>A special case: an input without duplicate codes.\<close>

lemma distinct_input_distinct_paths:
  assumes "distinct numbers"
    and "build_graph numbers Graph_init = Inr graph"
    and "distinct vs"
  shows "distinct (get_all_longest_paths (find_longest_paths graph LongestPath_init)) \<and>
         distinct (get_all_longest_paths (visit_vertices vs graph LongestPath_init))"
proof -
  have adj: "\<forall>v. distinct (get_neighbors graph v)"
    using build_graph_neighbors_distinct[OF assms(2,1)] by simp
  have "distinct (get_vertices graph)"
    using assms(2) by (rule build_graph_vertices_distinct)
  then show ?thesis
    using visit_vertices_distinct[OF adj] assms(3)
    by (simp add: get_all_longest_paths_def find_longest_paths_def)
qed

section \<open>Evaluation on explicit inputs\<close>

lemmas build_eval = build_graph_def Graph_init_def substr_def substr_from_def size_sub_def

lemmas search_eval = find_longest_paths_def get_vertices_def LongestPath_init_def dfs.simps
  dfs_enter_def dfs_leave_def Let_def get_all_longest_paths_def get_max_length_def

section \<open>The claims\<close>

text \<open>
  In the theorems about the search, \<open>vs\<close> stands for the vector that \<^verbatim>\<open>get_vertices\<close>
  returns: \<^const>\<open>find_longest_paths\<close> is \<^const>\<open>visit_vertices\<close> on
  \<^term>\<open>get_vertices graph\<close>, and a theorem stated for every \<open>vs\<close> holds in whatever order
  the hash map enumerates its keys.
\<close>

subsection \<open>C1: vertices of the built graph, duplicate collapse\<close>

text \<open>
  C1 says that \<^verbatim>\<open>get_vertices\<close> returns every distinct code of the input, isolated
  codes included, and that the input \<open>["123456", "123456"]\<close> gives one vertex, no edge,
  \<open>max_length = 1\<close> and the single path \<open>["123456"]\<close>. The comment on
  \<^verbatim>\<open>get_vertices\<close> promises the same ("Returns a list of all vertices in the graph").
  The code keeps a vertex only as a key of \<^verbatim>\<open>adj_list\<close>, and a key is created only by
  \<^verbatim>\<open>add_edge\<close>: by \<open>build_graph_vertices\<close> the vertices are exactly the codes with an
  outgoing edge. On this input the code builds the empty graph, returns no vertex, and the
  search ends with \<open>max_length = 0\<close> and no path.
\<close>

theorem duplicate_collapse_evaluated:
  "build_graph [''123456'', ''123456''] Graph_init = Inr [] \<and>
   get_vertices ([] :: Graph) = [] \<and>
   get_max_length (find_longest_paths [] LongestPath_init) = 0 \<and>
   get_all_longest_paths (find_longest_paths [] LongestPath_init) = []"
  by (simp add: build_eval search_eval)

subsection \<open>C2: the fork scenario\<close>

text \<open>
  C2 says that the input \<open>["111122", "221111", "221133"]\<close> gives \<open>max_length = 2\<close> and two
  paths from \<open>"111122"\<close>. The built graph also has the edge from \<open>"221111"\<close> to
  \<open>"111122"\<close>, so the search finds a path of three codes and \<open>max_length\<close> is not 2.
\<close>

theorem fork_scenario_counterexample:
  "build_graph [''111122'', ''221111'', ''221133''] Graph_init =
     Inr [(''111122'', [''221111'', ''221133'']), (''221111'', [''111122''])] \<and>
   get_max_length
     (find_longest_paths [(''111122'', [''221111'', ''221133'']), (''221111'', [''111122''])]
        LongestPath_init) \<noteq> 2"
  by (simp add: build_eval search_eval)

text \<open>
  C2 as amended: on this input the search ends with \<open>max_length = 3\<close> and exactly one
  path, \<open>["221111", "111122", "221133"]\<close>, in either order of the two vertices. The
  second conjunct is the order in which the model enumerates the two keys; the hash map
  of the code may enumerate them in the other order, which the last two conjuncts cover.
\<close>

theorem fork_scenario_longest:
  "build_graph [''111122'', ''221111'', ''221133''] Graph_init =
     Inr [(''111122'', [''221111'', ''221133'']), (''221111'', [''111122''])] \<and>
   get_vertices [(''111122'', [''221111'', ''221133'']), (''221111'', [''111122''])] =
     [''111122'', ''221111''] \<and>
   get_max_length
     (visit_vertices [''111122'', ''221111'']
        [(''111122'', [''221111'', ''221133'']), (''221111'', [''111122''])] LongestPath_init) = 3 \<and>
   get_all_longest_paths
     (visit_vertices [''111122'', ''221111'']
        [(''111122'', [''221111'', ''221133'']), (''221111'', [''111122''])] LongestPath_init) =
     [[''221111'', ''111122'', ''221133'']] \<and>
   get_max_length
     (visit_vertices [''221111'', ''111122'']
        [(''111122'', [''221111'', ''221133'']), (''221111'', [''111122''])] LongestPath_init) = 3 \<and>
   get_all_longest_paths
     (visit_vertices [''221111'', ''111122'']
        [(''111122'', [''221111'', ''221133'']), (''221111'', [''111122''])] LongestPath_init) =
     [[''221111'', ''111122'', ''221133'']]"
  by (simp add: build_eval search_eval)

subsection \<open>C3: edge correctness\<close>

text \<open>
  C3: for an input of 6-character codes, \<^verbatim>\<open>build_graph\<close> returns a graph, and for codes
  \<open>u\<close> and \<open>v\<close> of the input with \<open>u \<noteq> v\<close> the graph has the edge from \<open>u\<close> to \<open>v\<close>
  exactly when the last two characters of \<open>u\<close> are the first two of \<open>v\<close>; for \<open>u = v\<close> it
  has no edge.
\<close>

theorem edge_correctness:
  assumes "\<forall>c\<in>set numbers. length c = 6" and "u \<in> set numbers" and "v \<in> set numbers"
  shows "\<exists>graph. build_graph numbers Graph_init = Inr graph \<and>
           (u \<noteq> v \<longrightarrow> (v \<in> set (get_neighbors graph u) \<longleftrightarrow> suffix2 u = prefix2 v)) \<and>
           (u = v \<longrightarrow> v \<notin> set (get_neighbors graph u))"
proof -
  have "\<forall>s\<in>set numbers. 2 \<le> length s"
    using assms(1) by simp
  then obtain graph where g: "build_graph numbers Graph_init = Inr graph"
    using build_graph_total by blast
  show ?thesis
    using assms(2,3) by (auto simp: g build_graph_edge_iff[OF g])
qed

text \<open>
  The chain scenario \<open>["123456", "567890"]\<close> satisfies the hypotheses of C3.
\<close>

theorem edge_correctness_witness:
  "build_graph [''123456'', ''567890''] Graph_init = Inr [(''123456'', [''567890''])] \<and>
   ''567890'' \<in> set (get_neighbors [(''123456'', [''567890''])] ''123456'') \<and>
   suffix2 ''123456'' = prefix2 ''567890''"
proof -
  have h1: "\<forall>c\<in>set [''123456'', ''567890'']. length c = 6" by simp
  have h2: "''123456'' \<in> set [''123456'', ''567890'']" by simp
  have h3: "''567890'' \<in> set [''123456'', ''567890'']" by simp
  have b: "build_graph [''123456'', ''567890''] Graph_init = Inr [(''123456'', [''567890''])]"
    by (simp add: build_eval)
  show ?thesis
    using edge_correctness[OF h1 h2 h3] by (simp add: b)
qed

subsection \<open>C4: no duplicates in the result\<close>




subsection \<open>C5: length consistency\<close>

text \<open>
  C5: after the search, every path of \<^verbatim>\<open>get_all_longest_paths\<close> has exactly
  \<^verbatim>\<open>get_max_length\<close> vertices. This holds on every graph and for every enumeration of
  the start vertices.
\<close>

theorem length_consistency:
  "p \<in> set (get_all_longest_paths (visit_vertices vs graph LongestPath_init)) \<Longrightarrow>
   int (length p) = get_max_length (visit_vertices vs graph LongestPath_init)"
proof -
  let ?T = "concat (map (\<lambda>v. trace_dfs v graph (\<lambda>_. False) []) vs)"
  let ?r = "fold record_path ?T (results LongestPath_init)"
  assume p: "p \<in> set (get_all_longest_paths (visit_vertices vs graph LongestPath_init))"
  have r: "results (visit_vertices vs graph LongestPath_init) = ?r"
    by (rule visit_vertices_trace)
  have "\<forall>p\<in>set (fst (results LongestPath_init)). int (length p) = snd (results LongestPath_init)"
    by (simp add: results_def LongestPath_init_def)
  then have "\<forall>p\<in>set (fst ?r). int (length p) = snd ?r"
    by (rule fold_record_path_lengths)
  then show ?thesis
    using p unfolding r[symmetric] by (simp add: results_def get_all_longest_paths_def get_max_length_def)
qed

theorem length_consistency_witness:
  "[''123456'', ''567890''] \<in> set (get_all_longest_paths
      (visit_vertices [''123456''] [(''123456'', [''567890''])] LongestPath_init)) \<and>
   int (length [''123456'', ''567890'']) =
     get_max_length (visit_vertices [''123456''] [(''123456'', [''567890''])] LongestPath_init)"
proof -
  have h: "[''123456'', ''567890''] \<in> set (get_all_longest_paths
      (visit_vertices [''123456''] [(''123456'', [''567890''])] LongestPath_init))"
    by (simp add: search_eval)
  show ?thesis
    by (rule conjI[OF h length_consistency[OF h]])
qed

subsection \<open>C6: simplicity\<close>

text \<open>
  C6: no code occurs twice in a path of the result. This holds on every graph and for
  every enumeration of the start vertices.
\<close>

theorem simplicity:
  "p \<in> set (get_all_longest_paths (visit_vertices vs graph LongestPath_init)) \<Longrightarrow> distinct p"
proof -
  assume "p \<in> set (get_all_longest_paths (visit_vertices vs graph LongestPath_init))"
  from recorded_paths[OF this] obtain c where "p \<in> set (trace_dfs c graph (\<lambda>_. False) [])"
    by blast
  from trace_dfs_paths[OF this] show ?thesis by auto
qed

theorem simplicity_witness:
  "[''123456'', ''567890''] \<in> set (get_all_longest_paths
      (visit_vertices [''123456''] [(''123456'', [''567890''])] LongestPath_init)) \<and>
   distinct [''123456'', ''567890'']"
proof -
  have h: "[''123456'', ''567890''] \<in> set (get_all_longest_paths
      (visit_vertices [''123456''] [(''123456'', [''567890''])] LongestPath_init))"
    by (simp add: search_eval)
  show ?thesis
    by (rule conjI[OF h simplicity[OF h]])
qed

subsection \<open>C7: chain validity\<close>

text \<open>
  C7: on the graph built from any input, the last two characters of each code of a path
  of the result are the first two characters of the next code of the path.
\<close>

theorem chain_validity:
  assumes "build_graph numbers Graph_init = Inr graph"
    and "p \<in> set (get_all_longest_paths (visit_vertices vs graph LongestPath_init))"
    and "Suc i < length p"
  shows "suffix2 (p ! i) = prefix2 (p ! Suc i)"
proof -
  from recorded_paths[OF assms(2)] obtain c where "p \<in> set (trace_dfs c graph (\<lambda>_. False) [])"
    by blast
  from trace_dfs_paths[OF this] have "successively (edge graph) p"
    by auto
  then have "edge graph (p ! i) (p ! Suc i)"
    using assms(3) by (rule successively_nth)
  then show ?thesis
    using build_graph_edge_iff[OF assms(1)] by (simp add: edge_def)
qed

theorem chain_validity_witness:
  "build_graph [''123456'', ''567890''] Graph_init = Inr [(''123456'', [''567890''])] \<and>
   [''123456'', ''567890''] \<in> set (get_all_longest_paths
      (visit_vertices [''123456''] [(''123456'', [''567890''])] LongestPath_init)) \<and>
   Suc 0 < length [''123456'', ''567890''] \<and>
   suffix2 ([''123456'', ''567890''] ! 0) = prefix2 ([''123456'', ''567890''] ! Suc 0)"
proof -
  have h1: "build_graph [''123456'', ''567890''] Graph_init = Inr [(''123456'', [''567890''])]"
    by (simp add: build_eval)
  have h2: "[''123456'', ''567890''] \<in> set (get_all_longest_paths
      (visit_vertices [''123456''] [(''123456'', [''567890''])] LongestPath_init))"
    by (simp add: search_eval)
  have h3: "Suc 0 < length [''123456'', ''567890'']" by simp
  show ?thesis
    using h1 h2 h3 chain_validity[OF h1 h2 h3] by blast
qed

subsection \<open>C8: the printed string\<close>

text \<open>
  C8 says that \<^verbatim>\<open>print_path\<close> writes exactly the first four characters of every code
  followed by the last two of the last code, \<open>"1234567890"\<close> for the path
  \<open>["123456", "567890"]\<close>. Line 147 ends the output with \<^verbatim>\<open>endl\<close>, so what is written is
  one character longer.
\<close>

theorem print_path_counterexample:
  "print_path [''123456'', ''567890''] [] \<noteq> Inr ''1234567890''"
  by (simp add: print_path_def substr_def endl_def)

text \<open>
  C8 as amended: for a non-empty path of 6-character codes \<^verbatim>\<open>print_path\<close> writes the
  first four characters of every code, then the last two characters of the last code,
  then a line feed.
\<close>

theorem print_path_line:
  assumes "path \<noteq> []" and "\<forall>c\<in>set path. length c = 6"
  shows "print_path path os = Inr (os @ concat (map (take 4) path) @ drop 4 (last path) @ endl)"
proof -
  obtain v rest where path: "path = v # rest"
    using assms(1) by (cases path) auto
  have "length (last path) = 6" "length v = 6" "\<forall>c\<in>set rest. length c = 6"
    using assms by (auto simp: path)
  then show ?thesis
    by (simp add: print_path_def path substr_def print_path_loop_codes)
qed

text \<open>
  The chain scenario, and a path of one code, which is written whole.
\<close>

theorem print_path_line_witness:
  "print_path [''123456'', ''567890''] [] = Inr (''1234567890'' @ endl) \<and>
   print_path [''123456''] [] = Inr (''123456'' @ endl)"
  using print_path_line[of "[''123456'', ''567890'']" "[]"] print_path_line[of "[''123456'']" "[]"]
  by simp

subsection \<open>C9: the empty input\<close>

text \<open>
  C9: from the empty sequence \<^verbatim>\<open>build_graph\<close> returns the graph without vertices and
  edges, and the search on it returns with \<open>max_length = 0\<close> and no path.
\<close>

theorem empty_input:
  "build_graph [] Graph_init = Inr Graph_init \<and>
   get_vertices Graph_init = [] \<and>
   (\<forall>v. get_neighbors Graph_init v = []) \<and>
   get_max_length (find_longest_paths Graph_init LongestPath_init) = 0 \<and>
   get_all_longest_paths (find_longest_paths Graph_init LongestPath_init) = []"
  by (simp add: build_eval search_eval)

subsection \<open>C10: printing the empty path\<close>

text \<open>
  C10: on the empty path \<^verbatim>\<open>print_path\<close> returns at line 142 and writes nothing.
\<close>

theorem print_path_empty: "print_path [] os = Inr os"
  by (simp add: print_path_def)

end
